theory Spec2Isabelle
  imports Complex_Main
begin

section \<open>FileQueue: a FIFO queue that spills to files\<close>

text \<open>
  A shallow embedding of \<^verbatim>\<open>src/FileQueue.py\<close>. The object's private fields become a
  record, every method a function from the state before the call to an outcome holding
  the state after it. Three things of the environment are made explicit:
  \<^item> the directory at \<^verbatim>\<open>__buffer_dir\<close>: its contents are the field \<open>buffer_dir\<close>,
    \<open>None\<close> while the directory does not exist;
  \<^item> the clock: each reading of \<^verbatim>\<open>_time()\<close> a call may take is an argument of the call
    (seconds, as a real number);
  \<^item> the other threads: \<^verbatim>\<open>Condition.wait\<close> releases the mutex, so whole calls of other
    threads run before the waiting \<^verbatim>\<open>get\<close> goes on. A blocking \<^verbatim>\<open>get\<close> takes the list of
    its wake-ups, each with the calls that other threads completed while it slept.
  Pickling is taken to round-trip exactly, so a file holds the list that was dumped.
\<close>

subsection \<open>Data\<close>

text \<open>The exceptions that the methods can raise.\<close>

datatype error = Empty | AttributeError | IndexError | IOError | OSError

text \<open>
  How a call ends: it returns a value, it raises, or it is still inside
  \<^verbatim>\<open>Condition.wait\<close> when the given wake-ups are used up. Each carries the state it leaves.
\<close>

datatype ('v, 's) outcome = Returned 'v 's | Raised error 's | Blocked 's

fun state_of :: "('v, 's) outcome \<Rightarrow> 's" where
  "state_of (Returned v s) = s"
| "state_of (Raised e s) = s"
| "state_of (Blocked s) = s"

text \<open>Sequencing: the second step runs only when the first one returned.\<close>

fun and_then :: "('v, 's) outcome \<Rightarrow> ('v \<Rightarrow> 's \<Rightarrow> ('w, 's) outcome) \<Rightarrow> ('w, 's) outcome" where
  "and_then (Returned v s) f = f v s"
| "and_then (Raised e s) f = Raised e s"
| "and_then (Blocked s) f = Blocked s"

text \<open>
  The buffer directory: the pickled pair of the file \<^verbatim>\<open>info\<close> when there is one, and the
  chunk files by name. A chunk's name is \<^verbatim>\<open>str(int(_time() * 1000))\<close>; \<^verbatim>\<open>str\<close> is
  injective on integers and never yields \<^verbatim>\<open>info\<close>, so the integer stands for the name.
\<close>

record 'a directory =
  info :: "(int \<times> int list) option"
  chunks :: "int \<rightharpoonup> 'a list"

text \<open>
  The object. \<^verbatim>\<open>__files\<close>, \<^verbatim>\<open>__queue_in\<close> and \<^verbatim>\<open>__queue_out\<close> hold a deque, or Python's
  \<^verbatim>\<open>None\<close> after \<^verbatim>\<open>close\<close>; \<open>qsize\<close> is the field \<^verbatim>\<open>__size\<close>.
\<close>

record 'a FileQueue =
  buffer_size :: int
  save_data :: bool
  qsize :: int
  files :: "int list option"
  queue_in :: "'a list option"
  queue_out :: "'a list option"
  buffer_dir :: "'a directory option"

text \<open>Python's truth value of a deque or \<^verbatim>\<open>None\<close>: false for \<^verbatim>\<open>None\<close> and for an empty deque.\<close>

definition truthy :: "'b list option \<Rightarrow> bool" where
  "truthy q = (case q of None \<Rightarrow> False | Some xs \<Rightarrow> xs \<noteq> [])"

text \<open>Python's \<^verbatim>\<open>int\<close> of a float: truncation towards zero.\<close>

definition py_int :: "real \<Rightarrow> int" where
  "py_int x = (if 0 \<le> x then \<lfloor>x\<rfloor> else \<lceil>x\<rceil>)"

text \<open>
  The name \<^verbatim>\<open>__save_to_file\<close> gives the file it writes when the clock reads \<open>now\<close>. The
  product is the exact one; the code's product of two doubles is rounded, so the two names
  can differ by one, for a reading whose product lies within one rounding of a whole
  millisecond. They agree at every clock reading of the runs below.
\<close>

definition file_name :: "real \<Rightarrow> int" where
  "file_name now = py_int (now * 1000)"

subsection \<open>Construction\<close>

text \<open>
  \<^verbatim>\<open>__init__\<close>, given what is at the directory's path: the directory is created when
  absent, \<^verbatim>\<open>__size\<close> and \<^verbatim>\<open>__files\<close> are read from \<^verbatim>\<open>info\<close> when that file exists, and
  both buffers start empty.
\<close>

definition FileQueue_init :: "'a directory option \<Rightarrow> int \<Rightarrow> bool \<Rightarrow> 'a FileQueue" where
  "FileQueue_init dir bsize save =
     (let d = (case dir of None \<Rightarrow> \<lparr>info = None, chunks = Map.empty\<rparr> | Some d0 \<Rightarrow> d0)
      in \<lparr>buffer_size = bsize, save_data = save,
          qsize = (case info d of None \<Rightarrow> 0 | Some (n, fl) \<Rightarrow> n),
          files = Some (case info d of None \<Rightarrow> [] | Some (n, fl) \<Rightarrow> fl),
          queue_in = Some [], queue_out = Some [],
          buffer_dir = Some d\<rparr>)"

subsection \<open>Chunk files\<close>

text \<open>
  \<^verbatim>\<open>__save_to_file(queue, tail)\<close>: the name is appended to \<^verbatim>\<open>__files\<close> (or put in front)
  before the file is opened, so a failing \<^verbatim>\<open>open\<close> leaves the name in the list. Writing
  replaces a file of the same name.
\<close>

definition save_to_file ::
  "'a list \<Rightarrow> bool \<Rightarrow> real \<Rightarrow> 'a FileQueue \<Rightarrow> (unit, 'a FileQueue) outcome" where
  "save_to_file queue tail now s =
     (case files s of
        None \<Rightarrow> Raised AttributeError s
      | Some fl \<Rightarrow>
          (let s1 = s\<lparr>files := Some (if tail then fl @ [file_name now] else file_name now # fl)\<rparr>
           in case buffer_dir s1 of
                None \<Rightarrow> Raised IOError s1
              | Some d \<Rightarrow>
                  Returned () (s1\<lparr>buffer_dir :=
                    Some (d\<lparr>chunks := (chunks d)(file_name now \<mapsto> queue)\<rparr>)\<rparr>)))"

text \<open>\<^verbatim>\<open>__get_from_file(filename)\<close>: load the file, then remove it.\<close>

definition get_from_file :: "int \<Rightarrow> 'a FileQueue \<Rightarrow> ('a list, 'a FileQueue) outcome" where
  "get_from_file filename s =
     (case buffer_dir s of
        None \<Rightarrow> Raised IOError s
      | Some d \<Rightarrow>
          (case chunks d filename of
             None \<Rightarrow> Raised IOError s
           | Some obj \<Rightarrow>
               Returned obj (s\<lparr>buffer_dir := Some (d\<lparr>chunks := (chunks d)(filename := None)\<rparr>)\<rparr>)))"

subsection \<open>put\<close>

text \<open>The tuple assignment that exchanges \<^verbatim>\<open>__queue_in\<close> and \<^verbatim>\<open>__queue_out\<close>.\<close>

definition swap_queues :: "'a FileQueue \<Rightarrow> 'a FileQueue" where
  "swap_queues s = s\<lparr>queue_in := queue_out s, queue_out := queue_in s\<rparr>"

text \<open>
  \<^verbatim>\<open>put(item)\<close>; \<open>now\<close> is what the clock reads if the call reaches \<^verbatim>\<open>__save_to_file\<close>.
  \<^verbatim>\<open>notify\<close> changes no field, and the mutex is released on every path.
\<close>

definition put :: "'a \<Rightarrow> real \<Rightarrow> 'a FileQueue \<Rightarrow> (unit, 'a FileQueue) outcome" where
  "put item now s =
     (case queue_in s of
        None \<Rightarrow> Raised AttributeError s
      | Some qi \<Rightarrow>
          and_then
            (let s1 = s\<lparr>queue_in := Some (qi @ [item])\<rparr>
             in if buffer_size s1 \<le> int (length (qi @ [item])) then
                  if \<not> truthy (files s1) \<and> \<not> truthy (queue_out s1) then
                    Returned () (swap_queues s1)
                  else
                    and_then (save_to_file (qi @ [item]) True now s1)
                      (\<lambda>_ s2. Returned () (s2\<lparr>queue_in := Some []\<rparr>))
                else Returned () s1)
            (\<lambda>_ s3. Returned () (s3\<lparr>qsize := qsize s3 + 1\<rparr>)))"

subsection \<open>get\<close>

text \<open>
  Lines 90 to 96 of \<^verbatim>\<open>get\<close>: what is done about an empty \<^verbatim>\<open>__queue_out\<close> before any
  waiting. \<open>Returned True\<close> says that the call can go on to take an item,
  \<open>Returned False\<close> that it reached the innermost \<^verbatim>\<open>else\<close> (nothing in \<^verbatim>\<open>__files\<close> and
  nothing in \<^verbatim>\<open>__queue_in\<close>). The name is popped off \<^verbatim>\<open>__files\<close> before the file is read.
\<close>

definition refill :: "'a FileQueue \<Rightarrow> (bool, 'a FileQueue) outcome" where
  "refill s =
     (if \<not> truthy (queue_out s) then
        (case files s of
           Some (f # fl) \<Rightarrow>
             and_then (get_from_file f (s\<lparr>files := Some fl\<rparr>))
               (\<lambda>obj s1. Returned True (s1\<lparr>queue_out := Some obj\<rparr>))
         | _ \<Rightarrow>
             if truthy (queue_in s) then Returned True (swap_queues s)
             else Returned False s)
      else Returned True s)"

text \<open>Lines 111 and 112: \<^verbatim>\<open>__size\<close> is decremented, then \<^verbatim>\<open>__queue_out.popleft()\<close> is returned.\<close>

definition take_item :: "'a FileQueue \<Rightarrow> ('a, 'a FileQueue) outcome" where
  "take_item s =
     (let s1 = s\<lparr>qsize := qsize s - 1\<rparr>
      in case queue_out s1 of
           None \<Rightarrow> Raised AttributeError s1
         | Some [] \<Rightarrow> Raised IndexError s1
         | Some (x # xs) \<Rightarrow> Returned x (s1\<lparr>queue_out := Some xs\<rparr>))"

text \<open>
  A call that another thread completes while this one waits: a \<^verbatim>\<open>put\<close> with its clock
  reading, or a \<^verbatim>\<open>get\<close> that does not wait. Only the state it leaves matters here.
\<close>

datatype 'a call = Put 'a real | GetNowait

fun run_call :: "'a call \<Rightarrow> 'a FileQueue \<Rightarrow> 'a FileQueue" where
  "run_call (Put item now) s = state_of (put item now s)"
| "run_call GetNowait s =
     state_of (and_then (refill s) (\<lambda>ready s1. if ready then take_item s1 else Raised Empty s1))"

fun run_calls :: "'a call list \<Rightarrow> 'a FileQueue \<Rightarrow> 'a FileQueue" where
  "run_calls [] s = s"
| "run_calls (c # cs) s = run_calls cs (run_call c s)"

text \<open>
  A wake-up of a waiting \<^verbatim>\<open>get\<close>: what the clock reads at the top of that turn of the
  loop, and the calls of other threads that complete during the \<^verbatim>\<open>wait\<close> of that turn.
\<close>

type_synonym 'a wake = "real \<times> 'a call list"

text \<open>
  Lines 100 to 104, the loop under a timeout: \<open>deadline\<close> is \<^verbatim>\<open>end\<close>. The loop is left
  as soon as \<^verbatim>\<open>__queue_in\<close> is non-empty; it consults nothing else. With no wake-up
  left the call is still waiting.
\<close>

fun wait_timed :: "real \<Rightarrow> 'a wake list \<Rightarrow> 'a FileQueue \<Rightarrow> (unit, 'a FileQueue) outcome" where
  "wait_timed deadline [] s = (if truthy (queue_in s) then Returned () s else Blocked s)"
| "wait_timed deadline ((now, others) # evs) s =
     (if truthy (queue_in s) then Returned () s
      else if deadline - now \<le> 0 then Raised Empty s
      else wait_timed deadline evs (run_calls others s))"

text \<open>Lines 106 and 107, the loop without a timeout.\<close>

fun wait_forever :: "'a wake list \<Rightarrow> 'a FileQueue \<Rightarrow> (unit, 'a FileQueue) outcome" where
  "wait_forever [] s = (if truthy (queue_in s) then Returned () s else Blocked s)"
| "wait_forever ((now, others) # evs) s =
     (if truthy (queue_in s) then Returned () s
      else wait_forever evs (run_calls others s))"

text \<open>
  \<^verbatim>\<open>get(block, timeout)\<close>. \<open>t0\<close> is the clock reading that \<^verbatim>\<open>end\<close> is computed from,
  \<open>evs\<close> the wake-ups. After either loop the two buffers are exchanged without a look at
  \<^verbatim>\<open>__queue_out\<close> or \<^verbatim>\<open>__files\<close>. The deadline is the exact sum \<open>t0 + timeout\<close>; the code's
  \<^verbatim>\<open>end\<close> is that sum rounded to a double, which is \<open>t0\<close> itself for a positive timeout below
  the resolution of the clock: such a call raises \<^verbatim>\<open>Empty\<close> at its first turn in the code.
  Calls without a timeout and calls that do not block involve no arithmetic.
\<close>

definition get ::
  "bool \<Rightarrow> real \<Rightarrow> real \<Rightarrow> 'a wake list \<Rightarrow> 'a FileQueue \<Rightarrow> ('a, 'a FileQueue) outcome" where
  "get block timeout t0 evs s =
     and_then (refill s)
       (\<lambda>ready s1.
          if ready then take_item s1
          else if block then
            and_then
              (if 0 < timeout then wait_timed (t0 + timeout) evs s1 else wait_forever evs s1)
              (\<lambda>_ s2. take_item (swap_queues s2))
          else Raised Empty s1)"

text \<open>\<^verbatim>\<open>get_nowait()\<close> is \<^verbatim>\<open>get(block=False)\<close>, with the default \<^verbatim>\<open>timeout\<close> of 0.\<close>

definition get_nowait :: "'a FileQueue \<Rightarrow> ('a, 'a FileQueue) outcome" where
  "get_nowait s = get False 0 0 [] s"

subsection \<open>close\<close>

text \<open>The local \<^verbatim>\<open>rmdir\<close>: \<^verbatim>\<open>os.listdir\<close> raises when the directory does not exist.\<close>

definition rmdir :: "'a FileQueue \<Rightarrow> (unit, 'a FileQueue) outcome" where
  "rmdir s =
     (case buffer_dir s of
        None \<Rightarrow> Raised OSError s
      | Some d \<Rightarrow> Returned () (s\<lparr>buffer_dir := None\<rparr>))"

text \<open>Lines 182 and 183: the pair of \<^verbatim>\<open>__size\<close> and \<^verbatim>\<open>__files\<close> is written to \<^verbatim>\<open>info\<close>.\<close>

definition write_info :: "'a FileQueue \<Rightarrow> (unit, 'a FileQueue) outcome" where
  "write_info s =
     (case buffer_dir s of
        None \<Rightarrow> Raised IOError s
      | Some d \<Rightarrow>
          Returned () (s\<lparr>buffer_dir :=
            Some (d\<lparr>info := Some (qsize s, case files s of None \<Rightarrow> [] | Some fl \<Rightarrow> fl)\<rparr>)\<rparr>))"

text \<open>
  \<^verbatim>\<open>close()\<close>; \<open>t1\<close> and \<open>t2\<close> are what the clock reads in the two calls of
  \<^verbatim>\<open>__save_to_file\<close>, should they happen.
\<close>

definition close :: "real \<Rightarrow> real \<Rightarrow> 'a FileQueue \<Rightarrow> (unit, 'a FileQueue) outcome" where
  "close t1 t2 s =
     and_then
       (if save_data s \<and> files s \<noteq> None then
          and_then
            (case queue_in s of
               Some (x # xs) \<Rightarrow> save_to_file (x # xs) True t1 s
             | _ \<Rightarrow> Returned () s)
            (\<lambda>_ s1.
               and_then
                 (case queue_out s1 of
                    Some (y # ys) \<Rightarrow> save_to_file (y # ys) False t2 s1
                  | _ \<Rightarrow> Returned () s1)
                 (\<lambda>_ s2. if truthy (files s2) then write_info s2 else rmdir s2))
        else rmdir s)
       (\<lambda>_ s3. Returned () (s3\<lparr>queue_in := None, queue_out := None, files := None\<rparr>))"

subsection \<open>Single-threaded use\<close>

text \<open>
  A script of calls made one after the other by one thread: \<open>play\<close> collects the items
  that the \<^verbatim>\<open>get_nowait\<close> calls return, and stops at the first call that raises.
\<close>

fun play :: "'a call list \<Rightarrow> 'a list \<Rightarrow> 'a FileQueue \<Rightarrow> ('a list, 'a FileQueue) outcome" where
  "play [] got s = Returned got s"
| "play (Put item now # cs) got s = and_then (put item now s) (\<lambda>_ s1. play cs got s1)"
| "play (GetNowait # cs) got s = and_then (get_nowait s) (\<lambda>x s1. play cs (got @ [x]) s1)"

text \<open>The items that a script puts, in order.\<close>

fun puts_of :: "'a call list \<Rightarrow> 'a list" where
  "puts_of [] = []"
| "puts_of (Put item now # cs) = item # puts_of cs"
| "puts_of (GetNowait # cs) = puts_of cs"

text \<open>The items of a deque field; none for \<^verbatim>\<open>None\<close>.\<close>

definition items :: "'b list option \<Rightarrow> 'b list" where
  "items q = (case q of None \<Rightarrow> [] | Some xs \<Rightarrow> xs)"

text \<open>The items in the chunk file of a name; a name without a file stands for no item.\<close>

definition chunk_of :: "'a FileQueue \<Rightarrow> int \<Rightarrow> 'a list" where
  "chunk_of s f =
     (case buffer_dir s of
        None \<Rightarrow> []
      | Some d \<Rightarrow> (case chunks d f of None \<Rightarrow> [] | Some b \<Rightarrow> b))"

text \<open>
  The number of items that the queue holds: those of \<^verbatim>\<open>__queue_in\<close>, those of
  \<^verbatim>\<open>__queue_out\<close>, and those of the chunk files that \<^verbatim>\<open>__files\<close> names.
\<close>

definition held :: "'a FileQueue \<Rightarrow> int" where
  "held s =
     int (length (items (queue_in s))) + int (length (items (queue_out s)))
     + int (sum_list (map (\<lambda>f. length (chunk_of s f)) (items (files s))))"

text \<open>
  The items that the queue holds, in the order in which \<^verbatim>\<open>get\<close> is to return them:
  \<^verbatim>\<open>__queue_out\<close>, then the chunks in the order of \<^verbatim>\<open>__files\<close>, then \<^verbatim>\<open>__queue_in\<close>.
\<close>

definition contents :: "'a FileQueue \<Rightarrow> 'a list" where
  "contents s =
     items (queue_out s) @ concat (map (chunk_of s) (items (files s))) @ items (queue_in s)"

text \<open>
  A queue in working order: it is open, its directory exists, no name occurs twice in
  \<^verbatim>\<open>__files\<close>, and every name there has a file that holds at least one item.
\<close>

definition sound :: "'a FileQueue \<Rightarrow> bool" where
  "sound s =
     (queue_in s \<noteq> None \<and> queue_out s \<noteq> None \<and> files s \<noteq> None \<and> buffer_dir s \<noteq> None \<and>
      distinct (items (files s)) \<and> list_all (\<lambda>f. chunk_of s f \<noteq> []) (items (files s)))"

text \<open>The chunk names that the clock readings of a script's \<^verbatim>\<open>put\<close> calls stand for.\<close>

fun names_of :: "'a call list \<Rightarrow> int list" where
  "names_of [] = []"
| "names_of (Put item now # cs) = file_name now # names_of cs"
| "names_of (GetNowait # cs) = names_of cs"

text \<open>\<^verbatim>\<open>__queue_in\<close> holds fewer items than \<^verbatim>\<open>__buffer_size\<close>.\<close>

definition below_capacity :: "'a FileQueue \<Rightarrow> bool" where
  "below_capacity s = (queue_in s \<noteq> None \<and> int (length (items (queue_in s))) < buffer_size s)"

text \<open>The state that \<^verbatim>\<open>close\<close> leaves: the three fields are \<^verbatim>\<open>None\<close>.\<close>

definition closed :: "'a FileQueue \<Rightarrow> bool" where
  "closed s = (queue_in s = None \<and> queue_out s = None \<and> files s = None)"

text \<open>An open queue whose directory exists.\<close>

definition usable :: "'a FileQueue \<Rightarrow> bool" where
  "usable s = (queue_in s \<noteq> None \<and> queue_out s \<noteq> None \<and> files s \<noteq> None \<and> buffer_dir s \<noteq> None)"

text \<open>The script that puts the items \<open>xs\<close>, one at each of the clock readings \<open>ts\<close>.\<close>

fun put_all :: "'a list \<Rightarrow> real list \<Rightarrow> 'a call list" where
  "put_all (x # xs) (t # ts) = Put x t # put_all xs ts"
| "put_all xs ts = []"

section \<open>Properties\<close>

subsection \<open>Outcomes and schedules\<close>

text \<open>The definitions that a concrete run unfolds.\<close>

lemmas run_defs = FileQueue_init_def put_def get_def get_nowait_def refill_def take_item_def
  save_to_file_def get_from_file_def swap_queues_def truthy_def file_name_def py_int_def
  close_def rmdir_def write_info_def Let_def

lemma and_then_Returned:
  "and_then m f = Returned v s' \<longleftrightarrow> (\<exists>u s1. m = Returned u s1 \<and> f u s1 = Returned v s')"
  by (cases m) auto

lemma and_then_Raised:
  "and_then m f = Raised e s' \<longleftrightarrow> (m = Raised e s' \<or> (\<exists>u s1. m = Returned u s1 \<and> f u s1 = Raised e s'))"
  by (cases m) auto

lemma run_calls_append: "run_calls (cs @ ds) s = run_calls ds (run_calls cs s)"
  by (induction cs arbitrary: s) auto

lemma put_open:
  assumes "queue_in s = Some qi" and "queue_out s = Some qo" and "files s = Some fl"
    and "buffer_dir s = Some d"
  shows "put item now s = Returned ()
    (if int (length qi) + 1 < buffer_size s then
       s\<lparr>queue_in := Some (qi @ [item]), qsize := qsize s + 1\<rparr>
     else if fl = [] \<and> qo = [] then
       s\<lparr>queue_in := Some qo, queue_out := Some (qi @ [item]), qsize := qsize s + 1\<rparr>
     else
       s\<lparr>queue_in := Some [], files := Some (fl @ [file_name now]),
         buffer_dir := Some (d\<lparr>chunks := (chunks d)(file_name now \<mapsto> qi @ [item])\<rparr>),
         qsize := qsize s + 1\<rparr>)"
  using assms
  by (simp add: put_def save_to_file_def swap_queues_def truthy_def Let_def)

subsection \<open>What put does\<close>




subsection \<open>get without blocking\<close>

lemma get_False: "get False timeout t0 evs s =
   and_then (refill s) (\<lambda>ready s1. if ready then take_item s1 else Raised Empty s1)"
  by (simp add: get_def cong: if_cong)

text \<open>
  Claim C7. \<^verbatim>\<open>get_nowait()\<close> is \<^verbatim>\<open>get(block=False)\<close> on every state, whatever the timeout,
  the clock and the other threads; and when \<^verbatim>\<open>__queue_out\<close>, \<^verbatim>\<open>__files\<close> and \<^verbatim>\<open>__queue_in\<close>
  are all empty, both raise \<^verbatim>\<open>Empty\<close> at once: the outcome is a raise, not a wait, and no
  wake-up is consumed.
\<close>

theorem get_nowait_Empty:
  "get_nowait s = get False timeout t0 evs s \<and>
   (\<not> truthy (queue_out s) \<and> \<not> truthy (files s) \<and> \<not> truthy (queue_in s) \<longrightarrow>
      get False timeout t0 evs s = Raised Empty s \<and> get_nowait s = Raised Empty s)"
  by (auto simp add: get_nowait_def get_False refill_def truthy_def split: option.splits list.splits)

theorem get_nowait_Empty_witness:
  "\<not> truthy (queue_out (FileQueue_init None 5 False :: string FileQueue)) \<and>
   get_nowait (FileQueue_init None 5 False :: string FileQueue)
     = get False 3 7 [(8, [Put ''x'' 8])] (FileQueue_init None 5 False) \<and>
   get_nowait (FileQueue_init None 5 False :: string FileQueue)
     = Raised Empty (FileQueue_init None 5 False)"
  using get_nowait_Empty [of "FileQueue_init None 5 False :: string FileQueue" 3 7
      "[(8, [Put ''x'' 8])]"]
  by (simp add: FileQueue_init_def truthy_def)

subsection \<open>get raising Empty\<close>

lemma wait_forever_not_Raised: "wait_forever evs s \<noteq> Raised e s'"
  by (induction evs s rule: wait_forever.induct) auto

lemma wait_timed_Raised:
  "wait_timed deadline evs s = Raised e s' \<Longrightarrow>
     e = Empty \<and> (\<exists>n. s' = run_calls (concat (map snd (take n evs))) s)"
proof (induction deadline evs s rule: wait_timed.induct)
  case (1 deadline s)
  then show ?case by (simp split: if_splits)
next
  case (2 deadline now others evs s)
  show ?case
  proof (cases "truthy (queue_in s)")
    case True
    with 2 show ?thesis by simp
  next
    case False
    show ?thesis
    proof (cases "deadline - now \<le> 0")
      case True
      with False 2 have "e = Empty" "s' = s" by auto
      then show ?thesis by (auto intro: exI [of _ 0])
    next
      case d: False
      with False 2 obtain n where "e = Empty"
        "s' = run_calls (concat (map snd (take n evs))) (run_calls others s)" by auto
      then show ?thesis by (auto intro!: exI [of _ "Suc n"] simp: run_calls_append)
    qed
  qed
qed

lemma refill_not_Empty: "refill s \<noteq> Raised Empty s'"
  by (auto simp: refill_def get_from_file_def and_then_Raised split: option.splits list.splits)

lemma take_item_not_Empty: "take_item s \<noteq> Raised Empty s'"
  by (auto simp: take_item_def Let_def split: option.splits list.splits)

lemma refill_False: "refill s = Returned False s1 \<Longrightarrow> s1 = s"
  by (auto simp: refill_def get_from_file_def and_then_Returned split: option.splits list.splits if_splits)

lemma run_calls_idle: "\<forall>e\<in>set evs. snd e = [] \<Longrightarrow> run_calls (concat (map snd (take n evs))) s = s"
  by (induction evs arbitrary: n) (auto simp: take_Cons split: nat.splits)

text \<open>
  When \<^verbatim>\<open>get\<close> raises \<^verbatim>\<open>Empty\<close>, it has changed nothing itself: the state it leaves is the
  state it was called in, changed only by the calls that other threads completed during
  its waits. With no such call (and always when \<^verbatim>\<open>block\<close> is false) \<^verbatim>\<open>__size\<close>,
  \<^verbatim>\<open>__queue_in\<close>, \<^verbatim>\<open>__queue_out\<close>, \<^verbatim>\<open>__files\<close> and the directory are exactly as before the
  call.
\<close>

lemma get_Empty_leaves_state:
  assumes "get block timeout t0 evs s = Raised Empty s'"
  shows "(\<exists>n. s' = run_calls (concat (map snd (take n evs))) s) \<and>
         ((\<forall>e\<in>set evs. snd e = []) \<longrightarrow> s' = s) \<and>
         (\<not> block \<longrightarrow> s' = s)"
proof -
  from assms obtain ready s1 where r: "refill s = Returned ready s1"
    and k: "(if ready then take_item s1
          else if block then
            and_then
              (if 0 < timeout then wait_timed (t0 + timeout) evs s1 else wait_forever evs s1)
              (\<lambda>_ s2. take_item (swap_queues s2))
          else Raised Empty s1) = Raised Empty s'"
    by (auto simp: get_def and_then_Raised refill_not_Empty)
  from k have nr: "\<not> ready" by (auto simp: take_item_not_Empty)
  with r have s1: "s1 = s" by (simp add: refill_False)
  show ?thesis
  proof (cases block)
    case False
    with k nr s1 have "s' = s" by simp
    then show ?thesis by (auto intro: exI [of _ 0])
  next
    case True
    with k nr s1 have w: "wait_timed (t0 + timeout) evs s = Raised Empty s'"
      by (auto simp: and_then_Raised take_item_not_Empty wait_forever_not_Raised split: if_splits)
    then obtain n where n: "s' = run_calls (concat (map snd (take n evs))) s"
      using wait_timed_Raised by blast
    then show ?thesis using True by (auto simp: run_calls_idle)
  qed
qed

lemma get_Empty_leaves_state_example:
  "get True 2 10 [(11, []), (12.5, [])] (FileQueue_init None 3 False :: string FileQueue)
     = Raised Empty (FileQueue_init None 3 False) \<and>
   (\<exists>n. (FileQueue_init None 3 False :: string FileQueue)
     = run_calls (concat (map snd (take n ([(11, []), (12.5, [])] :: string wake list))))
         (FileQueue_init None 3 False))"
proof -
  have h: "get True 2 10 [(11, []), (12.5, [])] (FileQueue_init None 3 False :: string FileQueue)
     = Raised Empty (FileQueue_init None 3 False)"
    by (simp add: get_def refill_def truthy_def FileQueue_init_def)
  from get_Empty_leaves_state [OF h] h show ?thesis by blast
qed

text \<open>
  Claim C9 says that the state is as it was before the call whenever \<^verbatim>\<open>get\<close> raises \<^verbatim>\<open>Empty\<close>,
  also when a timeout expires. With a capacity of 1, a \<^verbatim>\<open>get\<close> with a timeout of 1 s is called
  at 10 s on an empty queue; another thread puts an item during its first wait, and that
  \<^verbatim>\<open>put\<close> moves the item to \<^verbatim>\<open>__queue_out\<close>. The woken \<^verbatim>\<open>get\<close> tests \<^verbatim>\<open>__queue_in\<close> alone, waits
  again, and at 11.5 s raises \<^verbatim>\<open>Empty\<close>: \<^verbatim>\<open>__size\<close> is then 1 and the item is in \<^verbatim>\<open>__queue_out\<close>.
\<close>

theorem timed_get_raises_Empty_on_item:
  "FileQueue_init None 1 False
     = \<lparr>buffer_size = 1, save_data = False, qsize = 0, files = Some [],
         queue_in = Some [], queue_out = Some ([] :: string list),
         buffer_dir = Some \<lparr>info = None, chunks = Map.empty\<rparr>\<rparr> \<and>
   get True 1 10 [(10.5, [Put ''x'' 10.6]), (11.5, [])] (FileQueue_init None 1 False)
     = Raised Empty \<lparr>buffer_size = 1, save_data = False, qsize = 1, files = Some [],
         queue_in = Some [], queue_out = Some [''x''],
         buffer_dir = Some \<lparr>info = None, chunks = Map.empty\<rparr>\<rparr>"
  by (simp add: run_defs)

subsection \<open>After close\<close>

lemma close_Returned_closed: "close t1 t2 s = Returned u s' \<Longrightarrow> closed s'"
  by (auto simp: close_def and_then_Returned closed_def)

lemma closed_put: "closed s \<Longrightarrow> put item now s = Raised AttributeError s"
  by (simp add: closed_def put_def)

lemma closed_refill: "closed s \<Longrightarrow> refill s = Returned False s"
  by (simp add: closed_def refill_def truthy_def)

lemma closed_run_call: "closed s \<Longrightarrow> run_call c s = s"
  by (cases c) (simp_all add: closed_put closed_refill)

lemma closed_run_calls: "closed s \<Longrightarrow> run_calls cs s = s"
  by (induction cs) (simp_all add: closed_run_call)

lemma closed_wait_forever: "closed s \<Longrightarrow> wait_forever evs s = Blocked s"
  by (induction evs) (auto simp: closed_run_calls closed_def truthy_def)

lemma closed_wait_timed:
  "closed s \<Longrightarrow> wait_timed deadline evs s =
     (if list_ex (\<lambda>e. deadline - fst e \<le> 0) evs then Raised Empty s else Blocked s)"
  by (induction evs) (auto simp: closed_run_calls closed_def truthy_def)

lemma closed_get:
  "closed s \<Longrightarrow> get block timeout t0 evs s =
     (if \<not> block then Raised Empty s
      else if 0 < timeout \<and> list_ex (\<lambda>e. t0 + timeout - fst e \<le> 0) evs then Raised Empty s
      else Blocked s)"
  by (simp add: get_def closed_refill closed_wait_forever closed_wait_timed)

text \<open>
  Claim C8, as the code has it. After \<^verbatim>\<open>close()\<close> has returned, \<^verbatim>\<open>__queue_in\<close>,
  \<^verbatim>\<open>__queue_out\<close> and \<^verbatim>\<open>__files\<close> are \<^verbatim>\<open>None\<close>. \<^verbatim>\<open>put\<close> then raises \<^verbatim>\<open>AttributeError\<close>, and
  \<^verbatim>\<open>get(block=False)\<close> and \<^verbatim>\<open>get_nowait()\<close> raise \<^verbatim>\<open>Empty\<close>, each at once and leaving the
  state as it is. A blocking \<^verbatim>\<open>get\<close> raises \<^verbatim>\<open>Empty\<close> only under a positive timeout, at the
  first wake-up past its deadline; without a timeout it goes on waiting whatever the
  other threads call, and neither returns nor raises.
\<close>

theorem after_close:
  assumes "close t1 t2 s = Returned () s'"
  shows "queue_in s' = None \<and> queue_out s' = None \<and> files s' = None \<and>
    put item now s' = Raised AttributeError s' \<and>
    get False timeout t0 evs s' = Raised Empty s' \<and>
    get_nowait s' = Raised Empty s' \<and>
    get True timeout t0 evs s' =
      (if 0 < timeout \<and> list_ex (\<lambda>e. t0 + timeout - fst e \<le> 0) evs then Raised Empty s'
       else Blocked s')"
proof -
  from assms have c: "closed s'" by (rule close_Returned_closed)
  then have "queue_in s' = None \<and> queue_out s' = None \<and> files s' = None"
    by (simp add: closed_def)
  moreover have "put item now s' = Raised AttributeError s'"
    using c by (rule closed_put)
  moreover have "get False timeout t0 evs s' = Raised Empty s'"
    using c by (simp add: closed_get)
  moreover have "get_nowait s' = Raised Empty s'"
    using c by (simp add: get_nowait_def closed_get)
  moreover have "get True timeout t0 evs s' =
      (if 0 < timeout \<and> list_ex (\<lambda>e. t0 + timeout - fst e \<le> 0) evs then Raised Empty s'
       else Blocked s')"
    using c by (simp add: closed_get)
  ultimately show ?thesis by blast
qed

theorem after_close_witness:
  "close 0 0 (FileQueue_init None 2 False :: string FileQueue)
     = Returned () \<lparr>buffer_size = 2, save_data = False, qsize = 0, files = None,
         queue_in = None, queue_out = None, buffer_dir = None\<rparr> \<and>
   put ''x'' 1 \<lparr>buffer_size = 2, save_data = False, qsize = 0, files = None,
         queue_in = None, queue_out = None, buffer_dir = None\<rparr>
     = Raised AttributeError \<lparr>buffer_size = 2, save_data = False, qsize = 0, files = None,
         queue_in = None, queue_out = None, buffer_dir = None\<rparr> \<and>
   get True 0 0 [(1, [Put ''y'' 1]), (2, [])]
       \<lparr>buffer_size = 2, save_data = False, qsize = 0, files = None,
         queue_in = None, queue_out = (None :: string list option), buffer_dir = None\<rparr>
     = Blocked \<lparr>buffer_size = 2, save_data = False, qsize = 0, files = None,
         queue_in = None, queue_out = None, buffer_dir = None\<rparr>"
proof -
  have h: "close 0 0 (FileQueue_init None 2 False :: string FileQueue)
     = Returned () \<lparr>buffer_size = 2, save_data = False, qsize = 0, files = None,
         queue_in = None, queue_out = None, buffer_dir = None\<rparr>"
    by (simp add: close_def rmdir_def FileQueue_init_def)
  from after_close [OF h, of "''x''" 1 0 0 "[(1, [Put ''y'' 1]), (2, [])]"] h
  show ?thesis by simp
qed

text \<open>
  Claim C8 as stated fails for a blocking \<^verbatim>\<open>get\<close>: on a queue that was closed, with
  another thread calling \<^verbatim>\<open>put\<close> meanwhile, it raises nothing and stays in its wait.
\<close>

theorem blocking_get_after_close_waits:
  "get True 0 0 [(1, [Put ''x'' 1]), (2, [])]
       (state_of (close 0 0 (FileQueue_init None 1 False)))
     = Blocked (state_of (close 0 0 (FileQueue_init None 1 False)))"
  by (simp add: close_def rmdir_def FileQueue_init_def get_def refill_def truthy_def put_def)

section \<open>Queues whose chunk names are distinct\<close>

text \<open>
  What the queue does as long as no chunk name is given twice. A queue is \<open>sound\<close> when it
  is open, its directory exists, \<^verbatim>\<open>__files\<close> holds no name twice and every name in it has a
  non-empty file; \<open>contents\<close> lists its items in the order in which \<^verbatim>\<open>get\<close> is to return them.
\<close>

subsection \<open>One call\<close>

lemma items_simps [simp]: "items (Some xs) = xs" "items None = []"
  by (simp_all add: items_def)

lemma chunk_of_frame:
  "chunk_of (s\<lparr>queue_in := a\<rparr>) = chunk_of s"
  "chunk_of (s\<lparr>queue_out := b\<rparr>) = chunk_of s"
  "chunk_of (s\<lparr>files := c\<rparr>) = chunk_of s"
  "chunk_of (s\<lparr>qsize := n\<rparr>) = chunk_of s"
  by (simp_all add: chunk_of_def fun_eq_iff)

lemma soundE:
  assumes "sound s"
  obtains qi qo fl d where "queue_in s = Some qi" "queue_out s = Some qo" "files s = Some fl"
    "buffer_dir s = Some d" "distinct fl" "\<forall>f\<in>set fl. chunk_of s f \<noteq> []"
proof -
  from assms obtain qi qo fl d where o: "queue_in s = Some qi" "queue_out s = Some qo"
    "files s = Some fl" "buffer_dir s = Some d"
    by (auto simp: sound_def)
  with assms have "distinct fl" "\<forall>f\<in>set fl. chunk_of s f \<noteq> []"
    by (auto simp: sound_def list_all_iff)
  with o show thesis using that by blast
qed

lemma held_contents: "held s = int (length (contents s))"
  by (simp add: held_def contents_def length_concat comp_def)

text \<open>
  \<^verbatim>\<open>put\<close> on a sound queue, at a clock reading whose name is not in \<^verbatim>\<open>__files\<close>: it returns,
  the queue stays sound, and the item is added at the end of the contents.
\<close>

lemma put_sound:
  assumes "sound s" and "file_name now \<notin> set (items (files s))"
  shows "\<exists>s'. put item now s = Returned () s' \<and> sound s' \<and> contents s' = contents s @ [item] \<and>
     qsize s' = qsize s + 1 \<and> buffer_size s' = buffer_size s \<and> save_data s' = save_data s \<and>
     set (items (files s')) \<subseteq> insert (file_name now) (set (items (files s)))"
proof -
  from assms(1) obtain qi qo fl d where o: "queue_in s = Some qi" "queue_out s = Some qo"
    "files s = Some fl" "buffer_dir s = Some d" "distinct fl"
    and c: "\<forall>f\<in>set fl. chunk_of s f \<noteq> []"
    by (rule soundE)
  from assms(2) o have fresh: "file_name now \<notin> set fl" by simp
  let ?n = "file_name now"
  consider (stay) "int (length qi) + 1 < buffer_size s"
    | (swap) "\<not> int (length qi) + 1 < buffer_size s" "fl = [] \<and> qo = []"
    | (spill) "\<not> int (length qi) + 1 < buffer_size s" "\<not> (fl = [] \<and> qo = [])"
    by blast
  then show ?thesis
  proof cases
    case stay
    with o have "put item now s = Returned () (s\<lparr>queue_in := Some (qi @ [item]), qsize := qsize s + 1\<rparr>)"
      by (simp add: put_open)
    with o c show ?thesis
      by (auto simp add: sound_def contents_def list_all_iff chunk_of_frame)
  next
    case swap
    with o have "put item now s = Returned ()
       (s\<lparr>queue_in := Some qo, queue_out := Some (qi @ [item]), qsize := qsize s + 1\<rparr>)"
      by (simp add: put_open)
    with o swap show ?thesis
      by (auto simp add: sound_def contents_def chunk_of_frame)
  next
    case spill
    let ?s' = "s\<lparr>queue_in := Some [], files := Some (fl @ [?n]),
         buffer_dir := Some (d\<lparr>chunks := (chunks d)(?n \<mapsto> qi @ [item])\<rparr>),
         qsize := qsize s + 1\<rparr>"
    from spill o have p: "put item now s = Returned () ?s'"
      by (auto simp add: put_open)
    have k: "chunk_of ?s' f = (if f = ?n then qi @ [item] else chunk_of s f)" for f
      using o by (simp add: chunk_of_def)
    have m: "map (chunk_of ?s') fl = map (chunk_of s) fl"
      using fresh by (auto simp: k)
    have "sound ?s'"
      using o c fresh by (auto simp: sound_def list_all_iff k)
    moreover have "contents ?s' = contents s @ [item]"
      by (simp add: contents_def o m k)
    ultimately show ?thesis using p o by auto
  qed
qed

lemma get_ready: "refill s = Returned True s1 \<Longrightarrow> get block timeout t0 evs s = take_item s1"
  by (simp add: get_def)

text \<open>
  \<^verbatim>\<open>get\<close> on a sound queue that holds an item: it returns the first item of the contents
  without waiting, whatever its arguments, and the queue stays sound.
\<close>

lemma get_sound:
  assumes "sound s" and "contents s = x # xs"
  shows "\<exists>s'. get block timeout t0 evs s = Returned x s' \<and> sound s' \<and> contents s' = xs \<and>
     qsize s' = qsize s - 1 \<and> buffer_size s' = buffer_size s \<and> save_data s' = save_data s \<and>
     set (items (files s')) \<subseteq> set (items (files s)) \<and>
     (below_capacity s \<longrightarrow> below_capacity s')"
proof -
  from assms(1) obtain qi qo fl d where o: "queue_in s = Some qi" "queue_out s = Some qo"
    "files s = Some fl" "buffer_dir s = Some d" "distinct fl"
    and c: "\<forall>f\<in>set fl. chunk_of s f \<noteq> []"
    by (rule soundE)
  consider (out) y ys where "qo = y # ys"
    | (chunk) f fl' where "qo = []" "fl = f # fl'"
    | (inc) y ys where "qo = []" "fl = []" "qi = y # ys"
    | (none) "qo = []" "fl = []" "qi = []"
    by (cases qo; cases fl; cases qi) auto
  then show ?thesis
  proof cases
    case out
    with o have "refill s = Returned True s"
      by (simp add: refill_def truthy_def)
    then have "get block timeout t0 evs s = take_item s"
      by (rule get_ready)
    with o out have g: "get block timeout t0 evs s =
        Returned y (s\<lparr>qsize := qsize s - 1, queue_out := Some ys\<rparr>)"
      by (simp add: take_item_def Let_def)
    from assms(2) o out have "x = y" "xs = ys @ concat (map (chunk_of s) fl) @ qi"
      by (simp_all add: contents_def)
    with g o c show ?thesis
      by (auto simp add: sound_def contents_def list_all_iff chunk_of_frame below_capacity_def)
  next
    case chunk
    from c chunk have "chunk_of s f \<noteq> []" by simp
    with o obtain b bs where b: "chunks d f = Some (b # bs)"
      by (auto simp: chunk_of_def neq_Nil_conv split: option.splits)
    let ?s1 = "s\<lparr>files := Some fl', buffer_dir := Some (d\<lparr>chunks := (chunks d)(f := None)\<rparr>),
        queue_out := Some (b # bs)\<rparr>"
    let ?s' = "s\<lparr>files := Some fl', buffer_dir := Some (d\<lparr>chunks := (chunks d)(f := None)\<rparr>),
        queue_out := Some bs, qsize := qsize s - 1\<rparr>"
    from o chunk b have "refill s = Returned True ?s1"
      by (simp add: refill_def truthy_def get_from_file_def)
    then have "get block timeout t0 evs s = take_item ?s1"
      by (rule get_ready)
    then have g: "get block timeout t0 evs s = Returned b ?s'"
      by (simp add: take_item_def Let_def)
    have k: "chunk_of ?s' h = (if h = f then [] else chunk_of s h)" for h
      using o by (simp add: chunk_of_def)
    from o chunk have nf: "f \<notin> set fl'" by simp
    then have m: "map (chunk_of ?s') fl' = map (chunk_of s) fl'"
      by (auto simp: k)
    from o b have "chunk_of s f = b # bs"
      by (simp add: chunk_of_def)
    with assms(2) o chunk have "x = b" "xs = bs @ concat (map (chunk_of s) fl') @ qi"
      by (simp_all add: contents_def)
    moreover have "contents ?s' = bs @ concat (map (chunk_of s) fl') @ qi"
      by (simp add: contents_def o m)
    moreover have "sound ?s'"
      using o c chunk nf by (auto simp: sound_def list_all_iff k)
    moreover have "below_capacity s \<longrightarrow> below_capacity ?s'"
      by (simp add: below_capacity_def)
    ultimately show ?thesis using g o chunk by auto
  next
    case inc
    with o have "refill s = Returned True (swap_queues s)"
      by (simp add: refill_def truthy_def)
    then have "get block timeout t0 evs s = take_item (swap_queues s)"
      by (rule get_ready)
    with o inc have g: "get block timeout t0 evs s =
        Returned y (s\<lparr>queue_in := Some [], queue_out := Some ys, qsize := qsize s - 1\<rparr>)"
      by (simp add: take_item_def swap_queues_def Let_def)
    from assms(2) o inc have "x = y" "xs = ys"
      by (simp_all add: contents_def)
    with g o inc show ?thesis
      by (auto simp add: sound_def contents_def below_capacity_def)
  next
    case none
    with assms(2) o show ?thesis by (simp add: contents_def)
  qed
qed

lemma refill_nothing:
  assumes "sound s" and "contents s = []"
  shows "refill s = Returned False s"
proof -
  from assms(1) obtain qi qo fl d where o: "queue_in s = Some qi" "queue_out s = Some qo"
    "files s = Some fl" "buffer_dir s = Some d" and c: "\<forall>f\<in>set fl. chunk_of s f \<noteq> []"
    by (rule soundE)
  from assms(2) o c have "qo = []" "qi = []" "fl = []"
    by (auto simp: contents_def)
  with o show ?thesis by (simp add: refill_def truthy_def)
qed

lemma get_nowait_sound:
  assumes "sound s" and "get_nowait s = Returned x s'"
  shows "sound s' \<and> contents s = x # contents s' \<and> qsize s' = qsize s - 1 \<and>
     set (items (files s')) \<subseteq> set (items (files s))"
proof (cases "contents s")
  case Nil
  with assms(1) have "refill s = Returned False s" by (rule refill_nothing)
  then have "get_nowait s = Raised Empty s" by (simp add: get_nowait_def get_def)
  with assms(2) show ?thesis by simp
next
  case (Cons y ys)
  with assms(1) obtain s1 where "get False 0 0 [] s = Returned y s1" "sound s1"
    "contents s1 = ys" "qsize s1 = qsize s - 1" "set (items (files s1)) \<subseteq> set (items (files s))"
    using get_sound [of s y ys False 0 0 "[]"] by blast
  with assms(2) Cons show ?thesis by (simp add: get_nowait_def)
qed

subsection \<open>Calls of one thread\<close>

lemma refill_False_in: "refill s = Returned False s1 \<Longrightarrow> \<not> truthy (queue_in s)"
  by (auto simp: refill_def get_from_file_def and_then_Returned
      split: option.splits list.splits if_splits)

lemma wait_forever_idle:
  "\<forall>e\<in>set evs. snd e = [] \<Longrightarrow> \<not> truthy (queue_in s) \<Longrightarrow> wait_forever evs s = Blocked s"
  by (induction evs) auto

lemma wait_timed_idle:
  "\<forall>e\<in>set evs. snd e = [] \<Longrightarrow> \<not> truthy (queue_in s) \<Longrightarrow> wait_timed deadline evs s \<noteq> Returned u s'"
  by (induction evs) (auto split: if_splits)

lemma put_usable:
  assumes "usable s"
  shows "\<exists>s'. put item now s = Returned () s' \<and> usable s' \<and> buffer_size s' = buffer_size s \<and>
    (1 \<le> buffer_size s \<longrightarrow> below_capacity s')"
proof -
  from assms obtain qi qo fl d where o: "queue_in s = Some qi" "queue_out s = Some qo"
    "files s = Some fl" "buffer_dir s = Some d"
    by (auto simp: usable_def)
  show ?thesis
    unfolding put_open [OF o]
    using o by (auto simp: usable_def below_capacity_def)
qed

lemma get_nowait_usable:
  assumes "usable s" and "get_nowait s = Returned x s'"
  shows "usable s' \<and> buffer_size s' = buffer_size s \<and> (below_capacity s \<longrightarrow> below_capacity s')"
proof -
  from assms(1) obtain qi qo fl d where o: "queue_in s = Some qi" "queue_out s = Some qo"
    "files s = Some fl" "buffer_dir s = Some d"
    by (auto simp: usable_def)
  from assms(2) obtain ready s1 where r: "refill s = Returned ready s1"
    and t: "take_item s1 = Returned x s'" and "ready"
    by (auto simp: get_nowait_def get_False and_then_Returned split: if_splits)
  from r o have "usable s1 \<and> buffer_size s1 = buffer_size s \<and> (below_capacity s \<longrightarrow> below_capacity s1)"
    by (auto simp: refill_def get_from_file_def and_then_Returned swap_queues_def usable_def
        below_capacity_def truthy_def split: option.splits list.splits if_splits)
  moreover from t have "usable s1 \<longrightarrow> usable s'" "buffer_size s' = buffer_size s1"
    "below_capacity s1 \<longrightarrow> below_capacity s'"
    by (auto simp: take_item_def Let_def usable_def below_capacity_def split: option.splits list.splits)
  ultimately show ?thesis by simp
qed

text \<open>
  With no call of another thread during its waits, a \<^verbatim>\<open>get\<close> that returns has not waited:
  it returns what \<^verbatim>\<open>get_nowait\<close> returns. So the successful \<^verbatim>\<open>get\<close> calls of one thread
  are those of \<open>play\<close>.
\<close>

lemma get_idle:
  assumes "\<forall>e\<in>set evs. snd e = []" and "get block timeout t0 evs s = Returned x s'"
  shows "get_nowait s = Returned x s'"
proof -
  from assms(2) obtain ready s1 where r: "refill s = Returned ready s1"
    and k: "(if ready then take_item s1
          else if block then
            and_then
              (if 0 < timeout then wait_timed (t0 + timeout) evs s1 else wait_forever evs s1)
              (\<lambda>_ s2. take_item (swap_queues s2))
          else Raised Empty s1) = Returned x s'"
    unfolding get_def and_then_Returned by blast
  show ?thesis
  proof (cases ready)
    case True
    with r k show ?thesis by (simp add: get_nowait_def get_def)
  next
    case False
    with r have s1: "s1 = s" and e: "\<not> truthy (queue_in s)"
      by (simp_all add: refill_False refill_False_in)
    from False k have b: block by (simp split: if_splits)
    with False k s1 obtain u s2 where
      "(if 0 < timeout then wait_timed (t0 + timeout) evs s else wait_forever evs s) = Returned u s2"
      by (auto simp: and_then_Returned)
    with assms(1) e show ?thesis
      by (auto simp: wait_forever_idle wait_timed_idle split: if_splits)
  qed
qed

text \<open>
  A script whose clock readings give names that are pairwise distinct and not in
  \<^verbatim>\<open>__files\<close>: the items it takes, followed by the contents left, are the contents at the
  start followed by the items it puts; and \<^verbatim>\<open>__size\<close> stays the number of items held.
\<close>

lemma play_fresh_names:
  assumes "sound s" and "qsize s = held s" and "distinct (names_of cs)"
    and "set (names_of cs) \<inter> set (items (files s)) = {}"
    and "play cs got s = Returned out s'"
  shows "sound s' \<and> qsize s' = held s' \<and>
     (\<exists>taken. out = got @ taken \<and> contents s @ puts_of cs = taken @ contents s')"
  using assms
proof (induction cs arbitrary: got s)
  case Nil
  then show ?case by simp
next
  case (Cons c cs)
  show ?case
  proof (cases c)
    case (Put item now)
    with Cons.prems(4) have fresh: "file_name now \<notin> set (items (files s))" by simp
    from put_sound [OF Cons.prems(1) fresh, of item] obtain s1 where
      a: "put item now s = Returned () s1 \<and> sound s1 \<and> contents s1 = contents s @ [item] \<and>
        qsize s1 = qsize s + 1 \<and> buffer_size s1 = buffer_size s \<and> save_data s1 = save_data s \<and>
        set (items (files s1)) \<subseteq> insert (file_name now) (set (items (files s)))" ..
    then have p: "put item now s = Returned () s1" and s1: "sound s1"
      "contents s1 = contents s @ [item]" "qsize s1 = qsize s + 1"
      "set (items (files s1)) \<subseteq> insert (file_name now) (set (items (files s)))"
      by simp_all
    from s1 Cons.prems(2) have h: "qsize s1 = held s1" by (simp add: held_contents)
    from Cons.prems(3) Put have d: "distinct (names_of cs)"
      and nn: "file_name now \<notin> set (names_of cs)" by simp_all
    from Cons.prems(4) Put have "set (names_of cs) \<inter> set (items (files s)) = {}" by simp
    with nn s1(4) have i: "set (names_of cs) \<inter> set (items (files s1)) = {}" by blast
    from Cons.prems(5) Put p have r: "play cs got s1 = Returned out s'" by simp
    from Cons.IH [OF s1(1) h d i r] obtain taken where e: "sound s'" "qsize s' = held s'"
      "out = got @ taken" "contents s1 @ puts_of cs = taken @ contents s'"
      by blast
    from e(4) s1(2) Put have "contents s @ puts_of (c # cs) = taken @ contents s'" by simp
    with e show ?thesis by blast
  next
    case GetNowait
    from Cons.prems(5) GetNowait
    have "and_then (get_nowait s) (\<lambda>x s1. play cs (got @ [x]) s1) = Returned out s'"
      by simp
    then obtain x s1 where g: "get_nowait s = Returned x s1"
      and r: "play cs (got @ [x]) s1 = Returned out s'"
      unfolding and_then_Returned by blast
    from get_nowait_sound [OF Cons.prems(1) g] have s1: "sound s1" "contents s = x # contents s1"
      "qsize s1 = qsize s - 1" "set (items (files s1)) \<subseteq> set (items (files s))"
      by simp_all
    from s1 Cons.prems(2) have h: "qsize s1 = held s1" by (simp add: held_contents)
    from Cons.prems(3) GetNowait have d: "distinct (names_of cs)" by simp
    from Cons.prems(4) GetNowait have "set (names_of cs) \<inter> set (items (files s)) = {}" by simp
    with s1(4) have i: "set (names_of cs) \<inter> set (items (files s1)) = {}" by blast
    from Cons.IH [OF s1(1) h d i r] obtain taken where e: "sound s'" "qsize s' = held s'"
      "out = (got @ [x]) @ taken" "contents s1 @ puts_of cs = taken @ contents s'"
      by blast
    from e(4) s1(2) GetNowait have "contents s @ puts_of (c # cs) = (x # taken) @ contents s'"
      by simp
    moreover from e(3) have "out = got @ (x # taken)" by simp
    ultimately show ?thesis using e(1,2) by blast
  qed
qed

text \<open>
  In the calls of one thread \<^verbatim>\<open>__queue_in\<close> stays below \<^verbatim>\<open>__buffer_size\<close>; this needs no
  condition on the names.
\<close>

lemma play_below_capacity:
  assumes "usable s" and "1 \<le> buffer_size s" and "below_capacity s"
    and "play cs got s = Returned out s'"
  shows "usable s' \<and> below_capacity s'"
  using assms
proof (induction cs arbitrary: got s)
  case Nil
  then show ?case by simp
next
  case (Cons c cs)
  show ?case
  proof (cases c)
    case (Put item now)
    from put_usable [OF Cons.prems(1), of item now] obtain s1 where
      a: "put item now s = Returned () s1 \<and> usable s1 \<and> buffer_size s1 = buffer_size s \<and>
        (1 \<le> buffer_size s \<longrightarrow> below_capacity s1)" ..
    with Cons.prems(2) have u: "usable s1" and b: "1 \<le> buffer_size s1" and c: "below_capacity s1"
      by simp_all
    from Cons.prems(4) Put a have r: "play cs got s1 = Returned out s'" by simp
    from Cons.IH [OF u b c r] show ?thesis .
  next
    case GetNowait
    from Cons.prems(4) GetNowait
    have "and_then (get_nowait s) (\<lambda>x s1. play cs (got @ [x]) s1) = Returned out s'"
      by simp
    then obtain x s1 where g: "get_nowait s = Returned x s1"
      and r: "play cs (got @ [x]) s1 = Returned out s'"
      unfolding and_then_Returned by blast
    from get_nowait_usable [OF Cons.prems(1) g] Cons.prems(2,3)
    have u: "usable s1" and b: "1 \<le> buffer_size s1" and c: "below_capacity s1"
      by simp_all
    from Cons.IH [OF u b c r] show ?thesis .
  qed
qed

subsection \<open>close and a new queue on the directory\<close>

text \<open>What \<^verbatim>\<open>close\<close> leaves of an open queue that saves its data.\<close>

lemma close_effect:
  assumes "queue_in s = Some qi" and "queue_out s = Some qo" and "files s = Some fl"
    and "buffer_dir s = Some d" and "save_data s"
  shows "close t1 t2 s = Returned ()
    (s\<lparr>queue_in := None, queue_out := None, files := None,
       buffer_dir :=
         (let fl1 = (if qi = [] then fl else fl @ [file_name t1]);
              c1 = (if qi = [] then chunks d else (chunks d)(file_name t1 \<mapsto> qi));
              fl2 = (if qo = [] then fl1 else file_name t2 # fl1);
              c2 = (if qo = [] then c1 else c1(file_name t2 \<mapsto> qo))
          in if fl2 = [] then None else Some (d\<lparr>chunks := c2, info := Some (qsize s, fl2)\<rparr>))\<rparr>)"
  using assms
  by (cases qi; cases qo)
    (simp_all add: close_def save_to_file_def write_info_def rmdir_def truthy_def Let_def)

text \<open>
  \<^verbatim>\<open>close\<close> on a sound queue that saves its data, the names of its two clock readings being
  new and different: the queue constructed next on the directory is sound and has the
  same contents.
\<close>

lemma close_reopen:
  assumes "sound s" and "save_data s" and "qsize s = held s"
    and "file_name t1 \<notin> set (items (files s))" and "file_name t2 \<notin> set (items (files s))"
    and "file_name t1 \<noteq> file_name t2"
  shows "\<exists>s'. close t1 t2 s = Returned () s' \<and>
     sound (FileQueue_init (buffer_dir s') bsize save) \<and>
     contents (FileQueue_init (buffer_dir s') bsize save) = contents s \<and>
     qsize (FileQueue_init (buffer_dir s') bsize save) = held (FileQueue_init (buffer_dir s') bsize save)"
proof -
  from assms(1) obtain qi qo fl d where o: "queue_in s = Some qi" "queue_out s = Some qo"
    "files s = Some fl" "buffer_dir s = Some d" "distinct fl"
    and c: "\<forall>f\<in>set fl. chunk_of s f \<noteq> []"
    by (rule soundE)
  let ?n1 = "file_name t1" and ?n2 = "file_name t2"
  from assms(4,5) o have n: "?n1 \<notin> set fl" "?n2 \<notin> set fl" by simp_all
  define fl2 where "fl2 = (if qo = [] then [] else [?n2]) @ fl @ (if qi = [] then [] else [?n1])"
  define c2 where "c2 = (\<lambda>f. if f = ?n2 \<and> qo \<noteq> [] then Some qo
     else if f = ?n1 \<and> qi \<noteq> [] then Some qi else chunks d f)"
  define dir where "dir = (if fl2 = [] then None else Some (d\<lparr>chunks := c2, info := Some (qsize s, fl2)\<rparr>))"
  let ?s' = "s\<lparr>queue_in := None, queue_out := None, files := None, buffer_dir := dir\<rparr>"
  let ?r = "FileQueue_init dir bsize save :: 'a FileQueue"
  have "close t1 t2 s = Returned () ?s'"
    unfolding close_effect [OF o(1-4) assms(2)] dir_def fl2_def c2_def
    by (auto simp: Let_def fun_eq_iff)
  moreover have ch: "chunk_of s f = (case chunks d f of None \<Rightarrow> [] | Some b \<Rightarrow> b)" for f
    using o by (simp add: chunk_of_def)
  have cs: "contents s = qo @ concat (map (chunk_of s) fl) @ qi"
    using o by (simp add: contents_def)
  have k: "sound ?r \<and> contents ?r = contents s \<and> qsize ?r = held ?r"
  proof (cases "fl2 = []")
    case True
    then have e: "qo = []" "qi = []" "fl = []" by (auto simp: fl2_def split: if_splits)
    with True cs show ?thesis
      by (simp add: dir_def FileQueue_init_def sound_def contents_def held_def)
  next
    case False
    then have r: "?r = \<lparr>buffer_size = bsize, save_data = save, qsize = qsize s, files = Some fl2,
        queue_in = Some [], queue_out = Some [],
        buffer_dir = Some (d\<lparr>chunks := c2, info := Some (qsize s, fl2)\<rparr>)\<rparr>"
      by (simp add: dir_def FileQueue_init_def)
    have cr: "chunk_of ?r f = (case c2 f of None \<Rightarrow> [] | Some b \<Rightarrow> b)" for f
      by (simp add: r chunk_of_def)
    have m: "map (chunk_of ?r) fl = map (chunk_of s) fl"
      using n by (auto simp: cr ch c2_def)
    have q2: "qo \<noteq> [] \<Longrightarrow> chunk_of ?r ?n2 = qo" and q1: "qi \<noteq> [] \<Longrightarrow> chunk_of ?r ?n1 = qi"
      using assms(6) by (simp_all add: cr c2_def)
    have "contents ?r = concat (map (chunk_of ?r) fl2)"
      by (simp add: r contents_def)
    also have "\<dots> = qo @ concat (map (chunk_of s) fl) @ qi"
      by (simp add: fl2_def m q1 q2)
    finally have ct: "contents ?r = contents s" using cs by simp
    have "\<forall>f\<in>set fl. chunk_of ?r f \<noteq> []"
      using c n by (auto simp: cr ch c2_def)
    with q1 q2 have "\<forall>f\<in>set fl2. chunk_of ?r f \<noteq> []"
      by (auto simp: fl2_def)
    moreover have "distinct fl2"
      using o(5) n assms(6) by (auto simp: fl2_def)
    ultimately have "sound ?r"
      by (simp add: r sound_def list_all_iff)
    moreover have "qsize ?r = held ?r"
      using assms(3) ct by (simp add: held_contents r)
    ultimately show ?thesis using ct by simp
  qed
  ultimately show ?thesis by auto
qed

text \<open>As many \<^verbatim>\<open>get_nowait\<close> calls as a sound queue has items return its contents.\<close>

lemma drain:
  assumes "sound s" and "contents s = xs"
  shows "\<exists>s'. play (replicate (length xs) GetNowait) got s = Returned (got @ xs) s' \<and>
     sound s' \<and> contents s' = []"
  using assms
proof (induction xs arbitrary: got s)
  case Nil
  then show ?case by simp
next
  case (Cons x xs)
  from get_sound [OF Cons.prems, of False 0 0 "[]"] obtain s1 where
    a: "get False 0 0 [] s = Returned x s1 \<and> sound s1 \<and> contents s1 = xs \<and>
     qsize s1 = qsize s - 1 \<and> buffer_size s1 = buffer_size s \<and> save_data s1 = save_data s \<and>
     set (items (files s1)) \<subseteq> set (items (files s)) \<and>
     (below_capacity s \<longrightarrow> below_capacity s1)" ..
  then have g: "get_nowait s = Returned x s1" and s1: "sound s1" "contents s1 = xs"
    by (simp_all add: get_nowait_def)
  from Cons.IH [OF s1, of "got @ [x]"] obtain s' where
    "play (replicate (length xs) GetNowait) (got @ [x]) s1 = Returned ((got @ [x]) @ xs) s' \<and>
     sound s' \<and> contents s' = []" ..
  with g show ?case by simp
qed

subsection \<open>From a fresh directory\<close>

lemma init_fresh:
  "sound (FileQueue_init None bsize save)"
  "contents (FileQueue_init None bsize save) = []"
  "qsize (FileQueue_init None bsize save) = held (FileQueue_init None bsize save)"
  "items (files (FileQueue_init None bsize save)) = []"
  "save_data (FileQueue_init None bsize save) = save"
  "usable (FileQueue_init None bsize save)"
  "buffer_size (FileQueue_init None bsize save) = bsize"
  "1 \<le> bsize \<Longrightarrow> below_capacity (FileQueue_init None bsize save)"
  by (simp_all add: FileQueue_init_def sound_def contents_def held_def usable_def below_capacity_def)

text \<open>
  First in, first out: in a script on a fresh directory whose chunk names are pairwise
  distinct, the items returned, followed by those still held, are the items put.
\<close>

lemma fifo_with_distinct_names:
  assumes "distinct (names_of cs)"
    and "play cs [] (FileQueue_init None bsize save) = Returned out s'"
  shows "puts_of cs = out @ contents s' \<and> qsize s' = held s' \<and> sound s'"
proof -
  let ?s = "FileQueue_init None bsize save :: 'a FileQueue"
  have "set (names_of cs) \<inter> set (items (files ?s)) = {}"
    by (simp add: init_fresh)
  from play_fresh_names [OF init_fresh(1) init_fresh(3) assms(1) this assms(2)]
  show ?thesis by (simp add: init_fresh)
qed

lemma incoming_below_capacity:
  assumes "1 \<le> bsize" and "play cs [] (FileQueue_init None bsize save) = Returned out s'"
  shows "below_capacity s'"
  using play_below_capacity [OF init_fresh(6) _ init_fresh(8) assms(2)] assms(1)
  by (simp add: init_fresh)

lemma disjoint_step: "n \<notin> N \<Longrightarrow> A \<subseteq> insert n B \<Longrightarrow> N \<inter> B = {} \<Longrightarrow> N \<inter> A = {}"
  by blast

lemma subset_step: "A \<subseteq> insert n B \<Longrightarrow> C \<subseteq> A \<union> N \<Longrightarrow> C \<subseteq> B \<union> insert n N"
  by blast

lemma play_put_all:
  assumes "sound s" and "length ts = length xs" and "distinct (map file_name ts)"
    and "file_name ` set ts \<inter> set (items (files s)) = {}"
  shows "\<exists>s'. play (put_all xs ts) got s = Returned got s' \<and> sound s' \<and>
     contents s' = contents s @ xs \<and> qsize s' = qsize s + int (length xs) \<and>
     save_data s' = save_data s \<and>
     set (items (files s')) \<subseteq> set (items (files s)) \<union> file_name ` set ts"
  using assms
proof (induction xs ts arbitrary: s rule: list_induct2')
  case 1
  then show ?case by simp
next
  case (2 x xs)
  then show ?case by simp
next
  case (3 t ts)
  then show ?case by simp
next
  case (4 x xs t ts)
  from "4.prems"(4) have fresh: "file_name t \<notin> set (items (files s))"
    and rest: "file_name ` set ts \<inter> set (items (files s)) = {}"
    by simp_all
  from put_sound [OF "4.prems"(1) fresh, of x] obtain s1 where
    a: "put x t s = Returned () s1 \<and> sound s1 \<and> contents s1 = contents s @ [x] \<and>
      qsize s1 = qsize s + 1 \<and> buffer_size s1 = buffer_size s \<and> save_data s1 = save_data s \<and>
      set (items (files s1)) \<subseteq> insert (file_name t) (set (items (files s)))" ..
  then have p: "put x t s = Returned () s1" and s1: "sound s1" "contents s1 = contents s @ [x]"
    "qsize s1 = qsize s + 1" "save_data s1 = save_data s"
    and f1: "set (items (files s1)) \<subseteq> insert (file_name t) (set (items (files s)))"
    by simp_all
  from "4.prems"(2) have l: "length ts = length xs" by simp
  from "4.prems"(3) have d: "distinct (map file_name ts)"
    and nt: "file_name t \<notin> file_name ` set ts" by simp_all
  from nt f1 rest have i: "file_name ` set ts \<inter> set (items (files s1)) = {}"
    by (rule disjoint_step)
  from "4.IH" [OF s1(1) l d i] obtain s' where
    b: "play (put_all xs ts) got s1 = Returned got s' \<and> sound s' \<and>
     contents s' = contents s1 @ xs \<and> qsize s' = qsize s1 + int (length xs) \<and>
     save_data s' = save_data s1 \<and>
     set (items (files s')) \<subseteq> set (items (files s1)) \<union> file_name ` set ts" ..
  then have r: "play (put_all xs ts) got s1 = Returned got s'" and s': "sound s'"
    "contents s' = contents s1 @ xs" "qsize s' = qsize s1 + int (length xs)"
    "save_data s' = save_data s1"
    and f2: "set (items (files s')) \<subseteq> set (items (files s1)) \<union> file_name ` set ts"
    by simp_all
  from f1 f2 have "set (items (files s')) \<subseteq> set (items (files s)) \<union> insert (file_name t) (file_name ` set ts)"
    by (rule subset_step)
  then have f: "set (items (files s')) \<subseteq> set (items (files s)) \<union> file_name ` set (t # ts)"
    by simp
  from p r have "play (put_all (x # xs) (t # ts)) got s = Returned got s'" by simp
  moreover from s'(2) s1(2) have "contents s' = contents s @ x # xs" by simp
  moreover from s'(3) s1(3) have "qsize s' = qsize s + int (length (x # xs))" by simp
  moreover from s'(4) s1(4) have "save_data s' = save_data s" by simp
  ultimately show ?case using s'(1) f by (intro exI [of _ s'] conjI)
qed

text \<open>
  The round trip: items put at clock readings with distinct names, \<^verbatim>\<open>close\<close> at two further
  ones, a new queue on the directory, and as many \<^verbatim>\<open>get_nowait\<close> calls as items: they
  return the items in the order in which they were put.
\<close>

lemma notin_subset: "n \<notin> N \<Longrightarrow> A \<subseteq> N \<Longrightarrow> n \<notin> A"
  by blast

lemma round_trip_with_distinct_names:
  assumes "length ts = length xs" and "distinct (map file_name (ts @ [t1, t2]))"
  shows "\<exists>s1 s2 s3.
     play (put_all xs ts) [] (FileQueue_init None bsize True) = Returned [] s1 \<and>
     close t1 t2 s1 = Returned () s2 \<and>
     play (replicate (length xs) GetNowait) [] (FileQueue_init (buffer_dir s2) bsize' save')
       = Returned xs s3"
proof -
  let ?s0 = "FileQueue_init None bsize True :: 'a FileQueue"
  from assms(2) have d: "distinct (map file_name ts)"
    and n1: "file_name t1 \<notin> file_name ` set ts" and n2: "file_name t2 \<notin> file_name ` set ts"
    and n12: "file_name t1 \<noteq> file_name t2"
    by simp_all
  have i: "file_name ` set ts \<inter> set (items (files ?s0)) = {}"
    by (simp add: init_fresh)
  from play_put_all [OF init_fresh(1) assms(1) d i, of "[]"] obtain s1 where
    a: "play (put_all xs ts) [] ?s0 = Returned [] s1 \<and> sound s1 \<and>
     contents s1 = contents ?s0 @ xs \<and> qsize s1 = qsize ?s0 + int (length xs) \<and>
     save_data s1 = save_data ?s0 \<and>
     set (items (files s1)) \<subseteq> set (items (files ?s0)) \<union> file_name ` set ts" ..
  then have p: "play (put_all xs ts) [] ?s0 = Returned [] s1" and s1: "sound s1"
    "contents s1 = xs" "save_data s1" "set (items (files s1)) \<subseteq> file_name ` set ts"
    and q: "qsize s1 = qsize ?s0 + int (length xs)"
    by (simp_all add: init_fresh)
  from q s1(2) have h: "qsize s1 = held s1"
    by (simp add: held_contents FileQueue_init_def)
  from n1 s1(4) have f1: "file_name t1 \<notin> set (items (files s1))"
    by (rule notin_subset)
  from n2 s1(4) have f2: "file_name t2 \<notin> set (items (files s1))"
    by (rule notin_subset)
  from close_reopen [OF s1(1) s1(3) h f1 f2 n12, of bsize' save'] obtain s2 where
    b: "close t1 t2 s1 = Returned () s2 \<and>
     sound (FileQueue_init (buffer_dir s2) bsize' save') \<and>
     contents (FileQueue_init (buffer_dir s2) bsize' save') = contents s1 \<and>
     qsize (FileQueue_init (buffer_dir s2) bsize' save')
       = held (FileQueue_init (buffer_dir s2) bsize' save')" ..
  then have c: "close t1 t2 s1 = Returned () s2"
    and r: "sound (FileQueue_init (buffer_dir s2) bsize' save')"
    "contents (FileQueue_init (buffer_dir s2) bsize' save') = xs"
    using s1(2) by simp_all
  from drain [OF r, of "[]"] obtain s3 where
    "play (replicate (length xs) GetNowait) [] (FileQueue_init (buffer_dir s2) bsize' save')
       = Returned ([] @ xs) s3 \<and> sound s3 \<and> contents s3 = []" ..
  then have g: "play (replicate (length xs) GetNowait) []
      (FileQueue_init (buffer_dir s2) bsize' save') = Returned xs s3"
    by simp
  from p c g show ?thesis
    by (intro exI [of _ s1] exI [of _ s2] exI [of _ s3] conjI)
qed

text \<open>
  The two runs of the next section, with the second clock reading one millisecond later:
  nothing is lost.
\<close>

lemma round_trip_example:
  "\<exists>s1 s2 s3.
     play (put_all [''a'', ''b'', ''c''] [1, 2, 3]) [] (FileQueue_init None 2 True) = Returned [] s1 \<and>
     close 4.0001 4.0017 s1 = Returned () s2 \<and>
     play (replicate (length [''a'', ''b'', ''c'']) GetNowait) []
         (FileQueue_init (buffer_dir s2) 2 True)
       = Returned [''a'', ''b'', ''c''] s3"
proof -
  have l: "length [1, 2, 3 :: real] = length [''a'', ''b'', ''c'']"
    by simp
  have d: "distinct (map file_name ([1, 2, 3] @ [4.0001, 4.0017]))"
    by (simp add: file_name_def py_int_def)
  from l d show ?thesis by (rule round_trip_with_distinct_names)
qed

lemma fifo_example:
  "play [Put ''a'' 1, Put ''b'' 1.0001, Put ''c'' 1.0017, GetNowait, GetNowait, GetNowait] []
       (FileQueue_init None 1 False)
     = Returned [''a'', ''b'', ''c''] \<lparr>buffer_size = 1, save_data = False, qsize = 0,
         files = Some [], queue_in = Some [], queue_out = Some [],
         buffer_dir = Some \<lparr>info = None, chunks = Map.empty\<rparr>\<rparr>"
  by (simp add: run_defs)

section \<open>Runs that go wrong\<close>

subsection \<open>Two spills within one millisecond\<close>

text \<open>
  Claim C6 says that every call of \<^verbatim>\<open>__save_to_file\<close> uses a name that \<^verbatim>\<open>__files\<close> does not
  hold. The name is the clock in whole milliseconds and is compared with nothing: with a
  capacity of 1, the second and the third \<^verbatim>\<open>put\<close> both spill, at 1.0001 s and 1.0007 s.
  Both chunks are named 1000: the name is twice in \<^verbatim>\<open>__files\<close>, and the one file holds
  the third item only.
\<close>

theorem same_millisecond_same_name:
  "file_name 1.0001 = 1000 \<and> file_name 1.0007 = 1000 \<and>
   play [Put ''a'' 1, Put ''b'' 1.0001] [] (FileQueue_init None 1 False)
     = Returned [] \<lparr>buffer_size = 1, save_data = False, qsize = 2, files = Some [1000],
         queue_in = Some [], queue_out = Some [''a''],
         buffer_dir = Some \<lparr>info = None, chunks = [1000 \<mapsto> [''b'']]\<rparr>\<rparr> \<and>
   put ''c'' 1.0007 \<lparr>buffer_size = 1, save_data = False, qsize = 2, files = Some [1000],
         queue_in = Some [], queue_out = Some [''a''],
         buffer_dir = Some \<lparr>info = None, chunks = [1000 \<mapsto> [''b'']]\<rparr>\<rparr>
     = Returned () \<lparr>buffer_size = 1, save_data = False, qsize = 3, files = Some [1000, 1000],
         queue_in = Some [], queue_out = Some [''a''],
         buffer_dir = Some \<lparr>info = None, chunks = [1000 \<mapsto> [''c'']]\<rparr>\<rparr>"
  by (simp add: run_defs)

text \<open>
  Claim C1 says that the items returned are the items put, in their order. In the run
  above the item \<^verbatim>\<open>b\<close> is gone with its file: two \<^verbatim>\<open>get_nowait\<close> calls return \<^verbatim>\<open>a\<close> and
  \<^verbatim>\<open>c\<close>, and the third one raises \<^verbatim>\<open>IOError\<close>, the file named 1000 having been removed
  when it was first loaded.
\<close>

theorem fifo_broken_by_same_name:
  "play [Put ''a'' 1, Put ''b'' 1.0001, Put ''c'' 1.0007, GetNowait, GetNowait] []
       (FileQueue_init None 1 False)
     = Returned [''a'', ''c''] \<lparr>buffer_size = 1, save_data = False, qsize = 1,
         files = Some [1000], queue_in = Some [], queue_out = Some [],
         buffer_dir = Some \<lparr>info = None, chunks = Map.empty\<rparr>\<rparr> \<and>
   play [Put ''a'' 1, Put ''b'' 1.0001, Put ''c'' 1.0007, GetNowait, GetNowait, GetNowait] []
       (FileQueue_init None 1 False)
     = Raised IOError \<lparr>buffer_size = 1, save_data = False, qsize = 1,
         files = Some [], queue_in = Some [], queue_out = Some [],
         buffer_dir = Some \<lparr>info = None, chunks = Map.empty\<rparr>\<rparr>"
  by (simp add: run_defs)

text \<open>
  Claim C4 says that \<^verbatim>\<open>__size\<close> is the number of items in the two buffers and in the
  chunks of \<^verbatim>\<open>__files\<close>. After the two successful \<^verbatim>\<open>get_nowait\<close> calls of that run
  \<^verbatim>\<open>__size\<close> is 1, while both buffers are empty and the one name left in \<^verbatim>\<open>__files\<close> has
  no file.
\<close>

theorem size_off_after_same_name:
  "qsize (state_of (play [Put ''a'' 1, Put ''b'' 1.0001, Put ''c'' 1.0007, GetNowait, GetNowait] []
       (FileQueue_init None 1 False))) = 1 \<and>
   held (state_of (play [Put ''a'' 1, Put ''b'' 1.0001, Put ''c'' 1.0007, GetNowait, GetNowait] []
       (FileQueue_init None 1 False))) = 0"
  by (simp add: run_defs held_def chunk_of_def items_def)

text \<open>
  Claim C2 says that the items put come back in order after \<^verbatim>\<open>close\<close> and a new queue on
  the same directory. With a capacity of 2 and three items, \<^verbatim>\<open>close\<close> saves \<^verbatim>\<open>__queue_in\<close> and
  then \<^verbatim>\<open>__queue_out\<close>, here at 4.0001 s and 4.0007 s: the second file replaces the first
  under the same name 4000. The new queue returns \<^verbatim>\<open>a\<close> and \<^verbatim>\<open>b\<close>, and its third
  \<^verbatim>\<open>get_nowait\<close> raises \<^verbatim>\<open>IOError\<close>.
\<close>

theorem close_reopen_loses_incoming:
  "play [Put ''a'' 1, Put ''b'' 2, Put ''c'' 3] [] (FileQueue_init None 2 True)
     = Returned [] \<lparr>buffer_size = 2, save_data = True, qsize = 3, files = Some [],
         queue_in = Some [''c''], queue_out = Some [''a'', ''b''],
         buffer_dir = Some \<lparr>info = None, chunks = Map.empty\<rparr>\<rparr> \<and>
   close 4.0001 4.0007 \<lparr>buffer_size = 2, save_data = True, qsize = 3, files = Some [],
         queue_in = Some [''c''], queue_out = Some [''a'', ''b''],
         buffer_dir = Some \<lparr>info = None, chunks = Map.empty\<rparr>\<rparr>
     = Returned () \<lparr>buffer_size = 2, save_data = True, qsize = 3, files = None,
         queue_in = None, queue_out = None,
         buffer_dir = Some \<lparr>info = Some (3, [4000, 4000]),
           chunks = [4000 \<mapsto> [''a'', ''b'']]\<rparr>\<rparr> \<and>
   play [GetNowait, GetNowait] []
       (FileQueue_init (Some \<lparr>info = Some (3, [4000, 4000]),
           chunks = [4000 \<mapsto> [''a'', ''b'']]\<rparr>) 2 True)
     = Returned [''a'', ''b''] \<lparr>buffer_size = 2, save_data = True, qsize = 1,
         files = Some [4000], queue_in = Some [], queue_out = Some [],
         buffer_dir = Some \<lparr>info = Some (3, [4000, 4000]), chunks = Map.empty\<rparr>\<rparr> \<and>
   play [GetNowait, GetNowait, GetNowait] []
       (FileQueue_init (Some \<lparr>info = Some (3, [4000, 4000]),
           chunks = [4000 \<mapsto> [''a'', ''b'']]\<rparr>) 2 True)
     = Raised IOError \<lparr>buffer_size = 2, save_data = True, qsize = 1,
         files = Some [], queue_in = Some [], queue_out = Some [],
         buffer_dir = Some \<lparr>info = Some (3, [4000, 4000]), chunks = Map.empty\<rparr>\<rparr>"
  by (simp add: run_defs)

subsection \<open>A second close\<close>

text \<open>
  A second \<^verbatim>\<open>close\<close>, as \<^verbatim>\<open>__del__\<close> makes one when the object is finalized: \<^verbatim>\<open>__files\<close> is
  \<^verbatim>\<open>None\<close> by then, so the call takes the branch that removes the directory, and with it
  the chunks and the \<^verbatim>\<open>info\<close> file that the first \<^verbatim>\<open>close\<close> saved.
\<close>

lemma second_close_removes_saved_data:
  "close 4 5 \<lparr>buffer_size = 2, save_data = True, qsize = 3, files = Some [],
         queue_in = Some [''c''], queue_out = Some [''a'', ''b''],
         buffer_dir = Some \<lparr>info = None, chunks = Map.empty\<rparr>\<rparr>
     = Returned () \<lparr>buffer_size = 2, save_data = True, qsize = 3, files = None,
         queue_in = None, queue_out = None,
         buffer_dir = Some \<lparr>info = Some (3, [5000, 4000]),
           chunks = [4000 \<mapsto> [''c''], 5000 \<mapsto> [''a'', ''b'']]\<rparr>\<rparr> \<and>
   close 6 7 \<lparr>buffer_size = 2, save_data = True, qsize = 3, files = None,
         queue_in = None, queue_out = None,
         buffer_dir = Some \<lparr>info = Some (3, [5000, 4000]),
           chunks = [4000 \<mapsto> [''c''], 5000 \<mapsto> [''a'', ''b'']]\<rparr>\<rparr>
     = Returned () \<lparr>buffer_size = 2, save_data = True, qsize = 3, files = None,
         queue_in = None, queue_out = None, buffer_dir = None\<rparr>"
  by (simp add: run_defs)

subsection \<open>A get that was woken\<close>

text \<open>
  Under a capacity of 1 (or less) every \<^verbatim>\<open>put\<close> leaves \<^verbatim>\<open>__queue_in\<close> empty, so a \<^verbatim>\<open>get\<close>
  that waits without timeout is never released, however many items other threads put.
\<close>

lemma put_keeps_incoming_empty:
  assumes "usable s" and "buffer_size s \<le> 1" and "queue_in s = Some []"
  shows "usable (run_call (Put item now) s) \<and> buffer_size (run_call (Put item now) s) \<le> 1 \<and>
     queue_in (run_call (Put item now) s) = Some []"
proof -
  from assms(1,3) obtain qo fl d where o: "queue_in s = Some []" "queue_out s = Some qo"
    "files s = Some fl" "buffer_dir s = Some d"
    by (auto simp: usable_def)
  show ?thesis
    using assms(2) o by (auto simp: put_open [OF o] usable_def)
qed

lemma capacity_one_never_woken:
  assumes "usable s" and "buffer_size s \<le> 1" and "queue_in s = Some []"
    and "\<forall>e\<in>set evs. \<forall>c\<in>set (snd e). c \<noteq> GetNowait"
  shows "\<exists>s'. wait_forever evs s = Blocked s'"
  using assms
proof (induction evs arbitrary: s)
  case Nil
  then show ?case by (simp add: truthy_def)
next
  case (Cons e evs)
  obtain now others where e: "e = (now, others)" by (cases e)
  have k: "usable (run_calls cs s) \<and> buffer_size (run_calls cs s) \<le> 1 \<and>
      queue_in (run_calls cs s) = Some []"
    if "\<forall>c\<in>set cs. c \<noteq> GetNowait" "usable s" "buffer_size s \<le> 1" "queue_in s = Some []"
    for cs and s :: "'a FileQueue"
    using that
  proof (induction cs arbitrary: s)
    case Nil
    then show ?case by simp
  next
    case (Cons c cs)
    then obtain item t where c: "c = Put item t" by (cases c) auto
    from put_keeps_incoming_empty [OF Cons.prems(2,3,4), of item t]
    have "usable (run_call c s)" "buffer_size (run_call c s) \<le> 1" "queue_in (run_call c s) = Some []"
      by (simp_all add: c)
    with Cons.IH [of "run_call c s"] Cons.prems(1) show ?case by simp
  qed
  from Cons.prems(4) e have "\<forall>c\<in>set others. c \<noteq> GetNowait" by simp
  from k [OF this Cons.prems(1,2,3)]
  have u: "usable (run_calls others s)" "buffer_size (run_calls others s) \<le> 1"
    "queue_in (run_calls others s) = Some []" by simp_all
  from Cons.prems(4) have r: "\<forall>e\<in>set evs. \<forall>c\<in>set (snd e). c \<noteq> GetNowait" by simp
  from Cons.IH [OF u r] obtain s' where "wait_forever evs (run_calls others s) = Blocked s'" ..
  with Cons.prems(3) e show ?case by (simp add: truthy_def)
qed

text \<open>
  Claim C5 says that a blocking \<^verbatim>\<open>get\<close> without timeout starts again from the top after
  each wake-up: \<^verbatim>\<open>__queue_out\<close> first, then \<^verbatim>\<open>__files\<close>, then \<^verbatim>\<open>__queue_in\<close>. The loop tests
  \<^verbatim>\<open>__queue_in\<close> alone. With a capacity of 1 the item that another thread puts during the
  wait is moved to \<^verbatim>\<open>__queue_out\<close> by that \<^verbatim>\<open>put\<close>, and the woken \<^verbatim>\<open>get\<close> stays in its wait,
  although a \<^verbatim>\<open>get\<close> called afresh on that state returns the item. With a capacity of 2
  and three items put during the wait, the woken \<^verbatim>\<open>get\<close> exchanges the buffers without
  looking at \<^verbatim>\<open>__queue_out\<close>, and returns the third item before the first two.
\<close>

theorem woken_get_ignores_queue_out:
  "get True 0 0 [(5, [Put ''x'' 1])] (FileQueue_init None 1 False)
     = Blocked \<lparr>buffer_size = 1, save_data = False, qsize = 1, files = Some [],
         queue_in = Some [], queue_out = Some [''x''],
         buffer_dir = Some \<lparr>info = None, chunks = Map.empty\<rparr>\<rparr> \<and>
   get True 0 0 [] \<lparr>buffer_size = 1, save_data = False, qsize = 1, files = Some [],
         queue_in = Some [], queue_out = Some [''x''],
         buffer_dir = Some \<lparr>info = None, chunks = Map.empty\<rparr>\<rparr>
     = Returned ''x'' \<lparr>buffer_size = 1, save_data = False, qsize = 0, files = Some [],
         queue_in = Some [], queue_out = Some [],
         buffer_dir = Some \<lparr>info = None, chunks = Map.empty\<rparr>\<rparr> \<and>
   get True 0 0 [(5, [Put ''x'' 1, Put ''y'' 2, Put ''z'' 3])] (FileQueue_init None 2 False)
     = Returned ''z'' \<lparr>buffer_size = 2, save_data = False, qsize = 2, files = Some [],
         queue_in = Some [''x'', ''y''], queue_out = Some [],
         buffer_dir = Some \<lparr>info = None, chunks = Map.empty\<rparr>\<rparr>"
  by (simp add: run_defs)

text \<open>
  Claim C10 says that \<^verbatim>\<open>__queue_in\<close> holds fewer than \<^verbatim>\<open>__buffer_size\<close> items after every
  \<^verbatim>\<open>put\<close> and every successful \<^verbatim>\<open>get\<close>. In the last run the three calls of \<^verbatim>\<open>put\<close> leave
  one item in \<^verbatim>\<open>__queue_in\<close> and two in \<^verbatim>\<open>__queue_out\<close>; the woken \<^verbatim>\<open>get\<close> exchanges the
  buffers and returns, and \<^verbatim>\<open>__queue_in\<close> then holds two items under a capacity of 2.
\<close>

theorem woken_get_refills_queue_in:
  "buffer_size (FileQueue_init None 2 False :: string FileQueue) = 2 \<and>
   run_calls [Put ''x'' 1, Put ''y'' 2, Put ''z'' 3] (FileQueue_init None 2 False)
     = \<lparr>buffer_size = 2, save_data = False, qsize = 3, files = Some [],
         queue_in = Some [''z''], queue_out = Some [''x'', ''y''],
         buffer_dir = Some \<lparr>info = None, chunks = Map.empty\<rparr>\<rparr> \<and>
   get True 0 0 [(5, [Put ''x'' 1, Put ''y'' 2, Put ''z'' 3])] (FileQueue_init None 2 False)
     = Returned ''z'' \<lparr>buffer_size = 2, save_data = False, qsize = 2, files = Some [],
         queue_in = Some [''x'', ''y''], queue_out = Some [],
         buffer_dir = Some \<lparr>info = None, chunks = Map.empty\<rparr>\<rparr> \<and>
   \<not> below_capacity \<lparr>buffer_size = 2, save_data = False, qsize = 2, files = Some [],
         queue_in = Some [''x'', ''y''], queue_out = Some ([] :: string list),
         buffer_dir = Some \<lparr>info = None, chunks = Map.empty\<rparr>\<rparr>"
  by (simp add: run_defs below_capacity_def)

end
